theory Spec2Isabelle
  imports Main
begin

section \<open>Identity reconciliation: the \<open>/identify\<close> endpoint of \<open>main.py\<close>\<close>

text \<open>
  The table \<open>contact\<close> is a list of rows in table order (ascending row id, the order in
  which SQLite returns the rows of an unordered query). Each ORM object is the row it was
  loaded from; the session's identity map makes one object per primary key, so objects are
  addressed by \<open>contact_id\<close>. Timestamps are natural numbers (seconds, the resolution of
  SQLite's \<open>CURRENT_TIMESTAMP\<close>); the database clock at commit time is the argument
  \<open>now\<close> of a request.
\<close>

subsection \<open>Data model\<close>

datatype LinkPrecedence = primary | secondary

text \<open>The field \<open>id\<close> of the source is \<open>contact_id\<close> here.\<close>

record Contact =
  contact_id :: nat
  phoneNumber :: "string option"
  email :: "string option"
  linkedId :: "nat option"
  linkPrecedence :: LinkPrecedence
  createdAt :: nat
  updatedAt :: nat

record IdentifyRequest =
  req_email :: "string option"
  req_phoneNumber :: "string option"

record ContactResponseData =
  primaryContatctId :: nat
  emails :: "string list"
  phoneNumbers :: "string list"
  secondaryContactIds :: "nat list"

record IdentifyResponse =
  contact :: ContactResponseData

datatype error = HTTP_400_BAD_REQUEST | IndexError | InvalidRequestError

subsection \<open>Python and ORM primitives\<close>

text \<open>Truth value of an \<open>Optional[str]\<close>: \<open>None\<close> and the empty string are false.\<close>

definition truthy :: "string option \<Rightarrow> bool" where
  "truthy s = (case s of None \<Rightarrow> False | Some v \<Rightarrow> v \<noteq> [])"

text \<open>The truthy values of a list of optional strings, in order.\<close>

fun vals :: "string option list \<Rightarrow> string list" where
  "vals [] = []"
| "vals (None # xs) = vals xs"
| "vals (Some s # xs) = (if s = [] then vals xs else s # vals xs)"

text \<open>\<open>list(dict.fromkeys(xs))\<close>: the first occurrence of every element, in order.\<close>

definition fromkeys :: "'a list \<Rightarrow> 'a list" where
  "fromkeys xs = rev (remdups (rev xs))"

text \<open>The relationship \<open>primary_contact\<close>: the row whose id is this row's \<open>linkedId\<close>.\<close>

definition primary_contact :: "Contact list \<Rightarrow> Contact \<Rightarrow> Contact option" where
  "primary_contact db c =
     (case linkedId c of None \<Rightarrow> None
      | Some l \<Rightarrow> find (\<lambda>p. contact_id p = l) db)"

text \<open>The relationship \<open>secondary_contacts\<close>: the rows whose \<open>linkedId\<close> is this row's id.\<close>

definition secondary_contacts :: "Contact list \<Rightarrow> Contact \<Rightarrow> Contact list" where
  "secondary_contacts db c = filter (\<lambda>x. linkedId x = Some (contact_id c)) db"

text \<open>The id an \<open>INTEGER PRIMARY KEY\<close> column gives a new row: one more than the largest.\<close>

definition new_id :: "Contact list \<Rightarrow> nat" where
  "new_id db = Suc (fold max (map contact_id db) 0)"

subsection \<open>Matching and resolving the primaries\<close>

definition matching_contacts ::
  "Contact list \<Rightarrow> string option \<Rightarrow> string option \<Rightarrow> Contact list" where
  "matching_contacts db em ph =
     (if truthy em then filter (\<lambda>c. email c = em) db else []) @
     (if truthy ph then filter (\<lambda>c. phoneNumber c = ph) db else [])"

definition unique_matching_contacts ::
  "Contact list \<Rightarrow> string option \<Rightarrow> string option \<Rightarrow> Contact list" where
  "unique_matching_contacts db em ph = fromkeys (matching_contacts db em ph)"

text \<open>
  The loop over \<open>secondary_matches\<close> (lines 153-155), appending each owner not yet in
  the list, and the two stable sorts by \<open>createdAt\<close> around it (lines 146-161).
\<close>

fun trace_secondaries :: "Contact list \<Rightarrow> Contact list \<Rightarrow> Contact list \<Rightarrow> Contact list" where
  "trace_secondaries db [] pcs = pcs"
| "trace_secondaries db (s # ss) pcs =
     (case primary_contact db s of
        None \<Rightarrow> trace_secondaries db ss pcs
      | Some p \<Rightarrow> if p \<notin> set pcs then trace_secondaries db ss (pcs @ [p])
                 else trace_secondaries db ss pcs)"

definition primary_contacts :: "Contact list \<Rightarrow> Contact list \<Rightarrow> Contact list" where
  "primary_contacts db umc =
     (let pcs = sort_key createdAt (filter (\<lambda>c. linkPrecedence c = primary) umc);
          secondary_matches = filter (\<lambda>c. linkPrecedence c = secondary) umc
      in sort_key createdAt (fromkeys (trace_secondaries db secondary_matches pcs)))"

subsection \<open>Merging\<close>

text \<open>
  The session holds the loaded objects with their pending changes; relationships are read
  from the database, which sees no pending change before the commit (\<open>autoflush=False\<close>).
  \<open>demote\<close> is one round of the loop over \<open>primary_contacts[1:]\<close>: it returns the session
  and the objects appended to \<open>contacts_to_update\<close>.
\<close>

definition set_parent :: "nat \<Rightarrow> Contact \<Rightarrow> Contact" where
  "set_parent mid c = c\<lparr>linkedId := Some mid\<rparr>"

definition set_demoted :: "nat \<Rightarrow> Contact \<Rightarrow> Contact" where
  "set_demoted mid c = c\<lparr>linkedId := Some mid, linkPrecedence := secondary\<rparr>"

definition at_ids :: "nat list \<Rightarrow> (Contact \<Rightarrow> Contact) \<Rightarrow> Contact list \<Rightarrow> Contact list" where
  "at_ids ids f sess = map (\<lambda>c. if contact_id c \<in> set ids then f c else c) sess"

definition demote ::
  "Contact list \<Rightarrow> nat \<Rightarrow> Contact \<Rightarrow> Contact list \<times> Contact list \<Rightarrow> Contact list \<times> Contact list" where
  "demote db mid c st =
     (let children = secondary_contacts db c;
          sess1 = at_ids [contact_id c] (set_demoted mid) (fst st);
          sess2 = at_ids (map contact_id children) (set_parent mid) sess1
      in (sess2, snd st @ [c] @ children))"

fun merge_loop ::
  "Contact list \<Rightarrow> nat \<Rightarrow> Contact list \<Rightarrow> Contact list \<times> Contact list \<Rightarrow> Contact list \<times> Contact list" where
  "merge_loop db mid [] st = st"
| "merge_loop db mid (c # cs) st = merge_loop db mid cs (demote db mid c st)"

text \<open>
  The commit writes every object with a net change, and \<open>onupdate\<close> stamps
  \<open>updatedAt\<close> on the rows written.
\<close>

definition commit :: "Contact list \<Rightarrow> Contact list \<Rightarrow> nat \<Rightarrow> Contact list" where
  "commit db sess now =
     map (\<lambda>(old, new). if new = old then old else new\<lparr>updatedAt := now\<rparr>) (zip db sess)"

subsection \<open>The response\<close>

text \<open>
  \<open>all_emails\<close> and \<open>all_phones\<close> are Python sets of strings; the order in which a set
  is iterated depends on the hashes of its elements and is no function of the insertion
  order. It is the parameter \<open>set_iter\<close>, from the sequence of insertions to the sequence of
  the iteration, and \<open>set_iter_ok\<close> says what every Python set guarantees.
\<close>

definition set_iter_ok :: "(string list \<Rightarrow> string list) \<Rightarrow> bool" where
  "set_iter_ok set_iter = (\<forall>xs. distinct (set_iter xs) \<and> set (set_iter xs) = set xs)"

definition ordered_values ::
  "(string list \<Rightarrow> string list) \<Rightarrow> string option \<Rightarrow> string option list \<Rightarrow> string list" where
  "ordered_values set_iter own group_values =
     (if truthy own then vals [own] else []) @
     filter (\<lambda>e. Some e \<noteq> own) (set_iter (vals group_values))"

definition response_data ::
  "(string list \<Rightarrow> string list) \<Rightarrow> Contact list \<Rightarrow> Contact \<Rightarrow> ContactResponseData" where
  "response_data set_iter db main_primary_contact =
     (let final_group = main_primary_contact # secondary_contacts db main_primary_contact;
          secondary_ids =
            map contact_id (filter (\<lambda>c. linkPrecedence c = secondary) final_group)
      in \<lparr>primaryContatctId = contact_id main_primary_contact,
          emails = ordered_values set_iter (email main_primary_contact) (map email final_group),
          phoneNumbers =
            ordered_values set_iter (phoneNumber main_primary_contact)
              (map phoneNumber final_group),
          secondaryContactIds = sort (remdups secondary_ids)\<rparr>)"

subsection \<open>The endpoint\<close>

definition new_information :: "string option \<Rightarrow> string option list \<Rightarrow> bool" where
  "new_information v existing =
     (case v of None \<Rightarrow> False | Some s \<Rightarrow> s \<noteq> [] \<and> s \<notin> set (vals existing))"

text \<open>Scenario 1 (lines 122-140): no existing contact, a new primary is inserted.\<close>

definition create_primary ::
  "Contact list \<Rightarrow> string option \<Rightarrow> string option \<Rightarrow> nat
     \<Rightarrow> Contact list \<times> (error + IdentifyResponse)" where
  "create_primary db em phone_number now =
     (let new_contact =
            \<lparr>contact_id = new_id db, phoneNumber = phone_number, email = em,
             linkedId = None, linkPrecedence = primary,
             createdAt = now, updatedAt = now\<rparr>
      in (db @ [new_contact],
          Inr \<lparr>contact =
            \<lparr>primaryContatctId = contact_id new_contact,
             emails = (if truthy em then vals [em] else []),
             phoneNumbers = (if truthy phone_number then vals [phone_number] else []),
             secondaryContactIds = []\<rparr>\<rparr>))"

text \<open>
  Scenarios 2 and 3, up to the commit (lines 171-211): the merge, the check for new
  information and the new secondary. \<open>merged\<close> is the session and
  \<open>contacts_to_update\<close> after the loop; \<open>committed\<close> is the table after the commit.
\<close>

definition merged :: "Contact list \<Rightarrow> Contact \<Rightarrow> Contact list \<Rightarrow> Contact list \<times> Contact list" where
  "merged db main_primary_contact others =
     (if length (main_primary_contact # others) > 1
      then merge_loop db (contact_id main_primary_contact) others (db, [])
      else (db, []))"

definition all_related_contacts :: "Contact list \<Rightarrow> Contact \<Rightarrow> Contact list \<Rightarrow> Contact list" where
  "all_related_contacts db main_primary_contact others =
     main_primary_contact # secondary_contacts db main_primary_contact @
     snd (merged db main_primary_contact others)"

definition adds_information ::
  "Contact list \<Rightarrow> string option \<Rightarrow> string option \<Rightarrow> Contact \<Rightarrow> Contact list \<Rightarrow> bool" where
  "adds_information db em phone_number main_primary_contact others =
     (let related = all_related_contacts db main_primary_contact others;
          new_email = new_information em (map email related);
          new_phone = new_information phone_number (map phoneNumber related)
      in new_email \<or> new_phone)"

definition committed ::
  "Contact list \<Rightarrow> string option \<Rightarrow> string option \<Rightarrow> nat \<Rightarrow> Contact \<Rightarrow> Contact list
     \<Rightarrow> Contact list" where
  "committed db em phone_number now main_primary_contact others =
     (let new_secondary_contact =
            \<lparr>contact_id = new_id db, phoneNumber = phone_number, email = em,
             linkedId = Some (contact_id main_primary_contact), linkPrecedence = secondary,
             createdAt = now, updatedAt = now\<rparr>
      in commit db (fst (merged db main_primary_contact others)) now @
         (if adds_information db em phone_number main_primary_contact others
          then [new_secondary_contact] else []))"

text \<open>
  After the commit (lines 216-253): the main primary is refreshed, which fails when its row
  is not found, and its group is read again.
\<close>

definition respond ::
  "(string list \<Rightarrow> string list) \<Rightarrow> Contact list \<Rightarrow> nat
     \<Rightarrow> Contact list \<times> (error + IdentifyResponse)" where
  "respond set_iter db' mid =
     (case find (\<lambda>c. contact_id c = mid) db' of
        None \<Rightarrow> (db', Inl InvalidRequestError)
      | Some refreshed \<Rightarrow> (db', Inr \<lparr>contact = response_data set_iter db' refreshed\<rparr>))"

definition identify_contact ::
  "(string list \<Rightarrow> string list) \<Rightarrow> Contact list \<Rightarrow> IdentifyRequest \<Rightarrow> nat
     \<Rightarrow> Contact list \<times> (error + IdentifyResponse)" where
  "identify_contact set_iter db request now =
     (let em = req_email request; phone_number = req_phoneNumber request in
      if \<not> truthy em \<and> \<not> truthy phone_number then (db, Inl HTTP_400_BAD_REQUEST)
      else
        let umc = unique_matching_contacts db em phone_number in
        if umc = [] then create_primary db em phone_number now
        else
          (case primary_contacts db umc of
             [] \<Rightarrow> (db, Inl IndexError)
           | main_primary_contact # others \<Rightarrow>
               respond set_iter
                 (committed db em phone_number now main_primary_contact others)
                 (contact_id main_primary_contact)))"

text \<open>A sequence of requests, each with the time of its commit.\<close>

fun requests ::
  "(string list \<Rightarrow> string list) \<Rightarrow> Contact list \<Rightarrow> (IdentifyRequest \<times> nat) list
     \<Rightarrow> Contact list" where
  "requests set_iter db [] = db"
| "requests set_iter db ((r, now) # rs) =
     requests set_iter (fst (identify_contact set_iter db r now)) rs"

subsection \<open>Notions used by the statements\<close>

text \<open>
  The invariants of the data model: ids are distinct (the primary key), a primary has no
  \<open>linkedId\<close>, and the \<open>linkedId\<close> of a secondary is the id of a primary row.
\<close>

definition store_inv :: "Contact list \<Rightarrow> bool" where
  "store_inv db =
     (distinct (map contact_id db) \<and>
      (\<forall>c\<in>set db.
         case linkPrecedence c of
           primary \<Rightarrow> linkedId c = None
         | secondary \<Rightarrow>
             (\<exists>p\<in>set db. linkedId c = Some (contact_id p) \<and> linkPrecedence p = primary)))"

text \<open>
  The merge loop in closed form. \<open>child_ids db cs\<close> are the ids of the rows linked to
  one of \<open>cs\<close>; \<open>touch\<close> is what the whole loop over \<open>cs\<close> does to one object of
  the session, and \<open>row_after\<close> is the row the commit then writes.
\<close>

definition child_ids :: "Contact list \<Rightarrow> Contact list \<Rightarrow> nat set" where
  "child_ids db cs = contact_id ` {x \<in> set db. \<exists>c\<in>set cs. linkedId x = Some (contact_id c)}"

definition touch :: "Contact list \<Rightarrow> nat \<Rightarrow> Contact list \<Rightarrow> Contact \<Rightarrow> Contact" where
  "touch db mid cs x =
     (if contact_id x \<in> contact_id ` set cs then set_demoted mid x
      else if contact_id x \<in> child_ids db cs then set_parent mid x
      else x)"

definition row_after :: "Contact list \<Rightarrow> nat \<Rightarrow> Contact list \<Rightarrow> nat \<Rightarrow> Contact \<Rightarrow> Contact" where
  "row_after db mid cs now x =
     (if touch db mid cs x = x then x else (touch db mid cs x)\<lparr>updatedAt := now\<rparr>)"

text \<open>The secondary that a request with new information inserts (lines 201-206).\<close>

definition new_secondary ::
  "Contact list \<Rightarrow> string option \<Rightarrow> string option \<Rightarrow> nat \<Rightarrow> nat \<Rightarrow> Contact" where
  "new_secondary db em ph now mid =
     \<lparr>contact_id = new_id db, phoneNumber = ph, email = em, linkedId = Some mid,
      linkPrecedence = secondary, createdAt = now, updatedAt = now\<rparr>"

text \<open>
  What a later state of a row may differ in from an earlier one: the id, the creation time,
  the email and the phone number stay; a secondary stays secondary; a \<open>linkedId\<close> that
  is set stays set, and it is set when the precedence has changed.
\<close>

definition evolves :: "Contact \<Rightarrow> Contact \<Rightarrow> bool" where
  "evolves c c' =
     (contact_id c' = contact_id c \<and> createdAt c' = createdAt c \<and>
      email c' = email c \<and> phoneNumber c' = phoneNumber c \<and>
      (linkPrecedence c = secondary \<longrightarrow> linkPrecedence c' = secondary) \<and>
      (linkedId c \<noteq> None \<longrightarrow> linkedId c' \<noteq> None) \<and>
      (linkPrecedence c' \<noteq> linkPrecedence c \<longrightarrow> linkedId c' \<noteq> None))"



subsection \<open>Example rows and requests\<close>

definition example_row ::
  "nat \<Rightarrow> string \<Rightarrow> string \<Rightarrow> nat option \<Rightarrow> LinkPrecedence \<Rightarrow> nat \<Rightarrow> Contact" where
  "example_row i em ph l prec t =
     \<lparr>contact_id = i, phoneNumber = Some ph, email = Some em, linkedId = l,
      linkPrecedence = prec, createdAt = t, updatedAt = t\<rparr>"

definition example_request :: "string \<Rightarrow> string \<Rightarrow> IdentifyRequest" where
  "example_request em ph = \<lparr>req_email = Some em, req_phoneNumber = Some ph\<rparr>"

text \<open>Two groups, the second with a secondary.\<close>

definition example_db_merge :: "Contact list" where
  "example_db_merge =
     [example_row 1 ''a'' ''1'' None primary 1,
      example_row 2 ''b'' ''2'' None primary 2,
      example_row 3 ''c'' ''2'' (Some 2) secondary 3]"

text \<open>Two primaries created within the same second.\<close>

definition example_db_tie :: "Contact list" where
  "example_db_tie =
     [example_row 1 ''a'' ''1'' None primary 5,
      example_row 2 ''b'' ''2'' None primary 5]"

text \<open>Three identities, then two merges.\<close>

definition example_history :: "(IdentifyRequest \<times> nat) list" where
  "example_history =
     [(example_request ''a'' ''1'', 1),
      (example_request ''b'' ''2'', 2),
      (example_request ''c'' ''3'', 3),
      (example_request ''c'' ''2'', 4),
      (example_request ''b'' ''1'', 5)]"



section \<open>Basic facts\<close>

lemma set_vals: "set (vals xs) = {s. Some s \<in> set xs \<and> s \<noteq> []}"
  by (induction xs rule: vals.induct) auto

lemma vals_single: "truthy v \<Longrightarrow> vals [v] = [the v]"
  by (cases v) (auto simp: truthy_def)

lemma set_fromkeys [simp]: "set (fromkeys xs) = set xs"
  by (simp add: fromkeys_def)

lemma distinct_fromkeys [simp]: "distinct (fromkeys xs)"
  by (simp add: fromkeys_def)

lemma fromkeys_Nil_iff [simp]: "fromkeys xs = [] \<longleftrightarrow> xs = []"
  by (simp add: fromkeys_def)

lemma fold_max_ge: "a \<le> fold max xs (a::nat)"
  by (induction xs arbitrary: a) (auto intro: order_trans [OF max.cobounded2])

lemma fold_max_mem: "x \<in> set xs \<Longrightarrow> x \<le> fold max xs (a::nat)"
proof (induction xs arbitrary: a)
  case Nil
  then show ?case by simp
next
  case (Cons y ys)
  show ?case
  proof (cases "x = y")
    case True
    have "y \<le> max y a" by simp
    also have "\<dots> \<le> fold max ys (max y a)" by (rule fold_max_ge)
    finally show ?thesis using True by simp
  next
    case False
    with Cons show ?thesis by simp
  qed
qed

lemma new_id_fresh: "c \<in> set db \<Longrightarrow> contact_id c < new_id db"
  by (simp add: new_id_def less_Suc_eq_le fold_max_mem)

lemma matching_Nil_iff:
  "matching_contacts db em ph = [] \<longleftrightarrow>
     (\<forall>c\<in>set db. (truthy em \<longrightarrow> email c \<noteq> em) \<and> (truthy ph \<longrightarrow> phoneNumber c \<noteq> ph))"
  by (auto simp: matching_contacts_def filter_empty_conv)

lemma set_matching:
  "set (matching_contacts db em ph) =
     {c \<in> set db. (truthy em \<and> email c = em) \<or> (truthy ph \<and> phoneNumber c = ph)}"
  by (auto simp: matching_contacts_def)

lemma child_ids_Nil [simp]: "child_ids db [] = {}"
  by (simp add: child_ids_def)

lemma child_ids_Cons:
  "child_ids db (c # cs) = contact_id ` set (secondary_contacts db c) \<union> child_ids db cs"
  by (auto simp: child_ids_def secondary_contacts_def)

lemma touch_Nil [simp]: "touch db mid [] x = x"
  by (simp add: touch_def)

lemma touch_id [simp]: "contact_id (touch db mid cs x) = contact_id x"
  by (simp add: touch_def set_demoted_def set_parent_def)

lemma touch_step:
  "touch db mid cs
     ((if contact_id (if contact_id x = contact_id c then set_demoted mid x else x)
            \<in> contact_id ` set (secondary_contacts db c)
       then set_parent mid (if contact_id x = contact_id c then set_demoted mid x else x)
       else (if contact_id x = contact_id c then set_demoted mid x else x)))
   = touch db mid (c # cs) x"
  by (simp add: touch_def child_ids_Cons set_demoted_def set_parent_def)

lemma merge_loop_fst:
  "fst (merge_loop db mid cs st) = map (touch db mid cs) (fst st)"
proof (induction cs arbitrary: st)
  case Nil
  then show ?case by simp
next
  case (Cons c cs)
  have "map (touch db mid cs) (fst (demote db mid c st)) = map (touch db mid (c # cs)) (fst st)"
    by (simp add: demote_def at_ids_def Let_def touch_step)
  with Cons show ?case by simp
qed

lemma merge_loop_snd:
  "snd (merge_loop db mid cs st) = snd st @ concat (map (\<lambda>c. c # secondary_contacts db c) cs)"
  by (induction cs arbitrary: st) (simp_all add: demote_def Let_def)

lemma map_touch_Nil [simp]: "map (touch db mid []) xs = xs"
  by (induction xs) simp_all

lemma merged_fst: "fst (merged db m others) = map (touch db (contact_id m) others) db"
  by (cases others) (simp_all add: merged_def merge_loop_fst del: merge_loop.simps)

lemma merged_snd:
  "snd (merged db m others) = concat (map (\<lambda>c. c # secondary_contacts db c) others)"
  by (cases others) (simp_all add: merged_def merge_loop_snd del: merge_loop.simps)

lemma commit_map: "commit db (map f db) now = map (\<lambda>x. if f x = x then x else (f x)\<lparr>updatedAt := now\<rparr>) db"
  by (simp add: commit_def zip_map2 zip_same_conv_map)

lemma commit_merged:
  "commit db (fst (merged db m others)) now = map (row_after db (contact_id m) others now) db"
  by (simp add: merged_fst commit_map row_after_def)

lemma store_inv_distinct: "store_inv db \<Longrightarrow> distinct (map contact_id db)"
  by (simp add: store_inv_def)

lemma store_inv_primary: "store_inv db \<Longrightarrow> c \<in> set db \<Longrightarrow> linkPrecedence c = primary \<Longrightarrow> linkedId c = None"
  by (fastforce simp: store_inv_def)

lemma store_inv_secondary:
  "store_inv db \<Longrightarrow> c \<in> set db \<Longrightarrow> linkPrecedence c = secondary \<Longrightarrow>
     \<exists>p\<in>set db. linkedId c = Some (contact_id p) \<and> linkPrecedence p = primary"
  by (fastforce simp: store_inv_def)

lemma same_id:
  "distinct (map contact_id db) \<Longrightarrow> x \<in> set db \<Longrightarrow> y \<in> set db \<Longrightarrow>
     contact_id x = contact_id y \<Longrightarrow> x = y"
  by (meson distinct_map inj_onD)

lemma primary_contact_Some:
  "primary_contact db s = Some p \<Longrightarrow> p \<in> set db \<and> linkedId s = Some (contact_id p)"
  by (auto simp: primary_contact_def find_Some_iff split: option.splits)

lemma primary_contact_found:
  assumes "distinct (map contact_id db)" "p \<in> set db" "linkedId s = Some (contact_id p)"
  shows "primary_contact db s = Some p"
proof -
  obtain q where q: "find (\<lambda>x. contact_id x = contact_id p) db = Some q"
    using assms(2) by (cases "find (\<lambda>x. contact_id x = contact_id p) db") (auto simp: find_None_iff)
  then have "q \<in> set db" "contact_id q = contact_id p"
    by (auto simp: find_Some_iff)
  then have "q = p" using assms(1,2) same_id by blast
  with q show ?thesis using assms(3) by (simp add: primary_contact_def)
qed

lemma set_trace_secondaries:
  "set (trace_secondaries db ss pcs) = set pcs \<union> {p. \<exists>s\<in>set ss. primary_contact db s = Some p}"
  by (induction ss arbitrary: pcs) (auto split: option.splits)

lemma set_primary_contacts:
  "set (primary_contacts db umc) =
     {c \<in> set umc. linkPrecedence c = primary} \<union>
     {p. \<exists>s\<in>set umc. linkPrecedence s = secondary \<and> primary_contact db s = Some p}"
  by (auto simp: primary_contacts_def Let_def set_trace_secondaries)

lemma distinct_primary_contacts: "distinct (primary_contacts db umc)"
  by (simp add: primary_contacts_def Let_def)

lemma sorted_primary_contacts: "sorted (map createdAt (primary_contacts db umc))"
  by (simp add: primary_contacts_def Let_def)

lemma primary_contacts_Nil [simp]: "primary_contacts db [] = []"
  by (simp add: primary_contacts_def fromkeys_def)

lemma set_unique_matching:
  "set (unique_matching_contacts db em ph) =
     {c \<in> set db. (truthy em \<and> email c = em) \<or> (truthy ph \<and> phoneNumber c = ph)}"
  by (simp add: unique_matching_contacts_def set_matching)

lemma unique_matching_subset: "set (unique_matching_contacts db em ph) \<subseteq> set db"
  by (auto simp: set_unique_matching)

lemma primary_contacts_subset:
  "set umc \<subseteq> set db \<Longrightarrow> set (primary_contacts db umc) \<subseteq> set db"
  by (auto simp: set_primary_contacts dest: primary_contact_Some)

lemma primary_contacts_primary:
  assumes "store_inv db" "set umc \<subseteq> set db" "p \<in> set (primary_contacts db umc)"
  shows "linkPrecedence p = primary"
proof -
  from assms(3) consider "linkPrecedence p = primary"
    | s where "s \<in> set umc" "linkPrecedence s = secondary" "primary_contact db s = Some p"
    by (auto simp: set_primary_contacts)
  then show ?thesis
  proof cases
    case 1
    then show ?thesis .
  next
    case 2
    then have s: "s \<in> set db" using assms(2) by blast
    from store_inv_secondary [OF assms(1) s 2(2)]
    obtain q where q: "q \<in> set db" "linkedId s = Some (contact_id q)" "linkPrecedence q = primary"
      by blast
    have "primary_contact db s = Some q"
      using primary_contact_found [OF store_inv_distinct [OF assms(1)] q(1,2)] .
    with 2(3) q(3) show ?thesis by simp
  qed
qed

lemma primary_contacts_nonempty:
  assumes "store_inv db" "set umc \<subseteq> set db" "umc \<noteq> []"
  shows "primary_contacts db umc \<noteq> []"
proof -
  obtain c where c: "c \<in> set umc" using assms(3) by (cases umc) auto
  show ?thesis
  proof (cases "linkPrecedence c")
    case primary
    with c have "c \<in> set (primary_contacts db umc)" by (simp add: set_primary_contacts)
    then show ?thesis by auto
  next
    case secondary
    from c assms(2) have "c \<in> set db" by blast
    from store_inv_secondary [OF assms(1) this secondary]
    obtain q where q: "q \<in> set db" "linkedId c = Some (contact_id q)" by blast
    have "primary_contact db c = Some q"
      using primary_contact_found [OF store_inv_distinct [OF assms(1)] q] .
    with c secondary have "q \<in> set (primary_contacts db umc)"
      by (auto simp: set_primary_contacts)
    then show ?thesis by auto
  qed
qed

lemma committed_eq:
  "committed db em ph now m others =
     map (row_after db (contact_id m) others now) db @
     (if adds_information db em ph m others then [new_secondary db em ph now (contact_id m)] else [])"
  by (simp add: committed_def commit_merged new_secondary_def)

lemma fst_respond [simp]: "fst (respond set_iter db' mid) = db'"
  by (simp add: respond_def split: option.splits)

lemma fst_create_primary:
  "fst (create_primary db em ph now) =
     db @ [\<lparr>contact_id = new_id db, phoneNumber = ph, email = em, linkedId = None,
            linkPrecedence = primary, createdAt = now, updatedAt = now\<rparr>]"
  by (simp add: create_primary_def)

text \<open>The table after a request, by the outcome of the resolver.\<close>

lemma identify_store:
  "fst (identify_contact set_iter db r now) =
     (let em = req_email r; ph = req_phoneNumber r;
          umc = unique_matching_contacts db em ph in
      if \<not> truthy em \<and> \<not> truthy ph then db
      else if umc = [] then fst (create_primary db em ph now)
      else case primary_contacts db umc of [] \<Rightarrow> db
           | m # others \<Rightarrow> committed db em ph now m others)"
  by (simp add: identify_contact_def Let_def split: list.splits)

lemma row_after_id [simp]: "contact_id (row_after db mid cs now x) = contact_id x"
  by (simp add: row_after_def)

lemma row_after_id_comp [simp]: "contact_id \<circ> row_after db mid cs now = contact_id"
  by (rule ext) simp

lemma in_ids_iff:
  assumes "distinct (map contact_id db)" "set cs \<subseteq> set db" "x \<in> set db"
  shows "contact_id x \<in> contact_id ` set cs \<longleftrightarrow> x \<in> set cs"
  using assms same_id by blast

lemma in_child_ids_iff:
  assumes "distinct (map contact_id db)" "x \<in> set db"
  shows "contact_id x \<in> child_ids db cs \<longleftrightarrow> (\<exists>c\<in>set cs. linkedId x = Some (contact_id c))"
proof
  assume "contact_id x \<in> child_ids db cs"
  then obtain y where y: "y \<in> set db" "contact_id y = contact_id x"
      "\<exists>c\<in>set cs. linkedId y = Some (contact_id c)"
    unfolding child_ids_def by force
  then have "y = x" using assms same_id by blast
  with y show "\<exists>c\<in>set cs. linkedId x = Some (contact_id c)" by simp
next
  assume "\<exists>c\<in>set cs. linkedId x = Some (contact_id c)"
  then show "contact_id x \<in> child_ids db cs"
    using assms(2) by (auto simp: child_ids_def)
qed

text \<open>The row after the commit, under distinct ids.\<close>

lemma row_after_cases:
  assumes "distinct (map contact_id db)" "set cs \<subseteq> set db" "x \<in> set db"
  shows "row_after db mid cs now x =
     (if x \<in> set cs then
        (if set_demoted mid x = x then x else (set_demoted mid x)\<lparr>updatedAt := now\<rparr>)
      else if \<exists>c\<in>set cs. linkedId x = Some (contact_id c) then
        (if set_parent mid x = x then x else (set_parent mid x)\<lparr>updatedAt := now\<rparr>)
      else x)"
  unfolding row_after_def touch_def
  using in_ids_iff [OF assms] in_child_ids_iff [OF assms(1,3), of cs]
  by simp

lemma row_after_untouched:
  assumes "distinct (map contact_id db)" "set cs \<subseteq> set db" "x \<in> set db"
    "x \<notin> set cs" "\<forall>c\<in>set cs. linkedId x \<noteq> Some (contact_id c)"
  shows "row_after db mid cs now x = x"
  using row_after_cases [OF assms(1-3)] assms(4,5) by simp

lemma row_after_demoted:
  assumes "distinct (map contact_id db)" "set cs \<subseteq> set db" "x \<in> set db" "x \<in> set cs"
  shows "linkPrecedence (row_after db mid cs now x) = secondary \<and>
         linkedId (row_after db mid cs now x) = Some mid"
proof -
  have "linkPrecedence (set_demoted mid x) = secondary" "linkedId (set_demoted mid x) = Some mid"
    by (simp_all add: set_demoted_def)
  then show ?thesis
    using row_after_cases [OF assms(1-3), of mid now] assms(4)
    by (cases "set_demoted mid x = x") auto
qed

lemma row_after_child:
  assumes "distinct (map contact_id db)" "set cs \<subseteq> set db" "x \<in> set db"
    "c \<in> set cs" "linkedId x = Some (contact_id c)"
  shows "linkedId (row_after db mid cs now x) = Some mid"
proof (cases "x \<in> set cs")
  case True
  then show ?thesis using row_after_demoted [OF assms(1-3)] by simp
next
  case False
  have "linkedId (set_parent mid x) = Some mid" by (simp add: set_parent_def)
  then show ?thesis
    using row_after_cases [OF assms(1-3), of mid now] assms(4,5) False
    by (cases "set_parent mid x = x") auto
qed

lemma row_after_precedence:
  assumes "distinct (map contact_id db)" "set cs \<subseteq> set db" "x \<in> set db" "x \<notin> set cs"
  shows "linkPrecedence (row_after db mid cs now x) = linkPrecedence x"
  using row_after_cases [OF assms(1-3), of mid now] assms(4)
  by (simp add: set_parent_def)

lemma store_inv_create_primary:
  assumes "store_inv db"
  shows "store_inv (fst (create_primary db em ph now))"
proof -
  let ?n = "\<lparr>contact_id = new_id db, phoneNumber = ph, email = em, linkedId = None,
            linkPrecedence = primary, createdAt = now, updatedAt = now\<rparr>"
  have fresh: "new_id db \<notin> contact_id ` set db"
    using new_id_fresh by fastforce
  have d: "distinct (map contact_id (db @ [?n]))"
    using store_inv_distinct [OF assms] fresh by simp
  have "\<forall>c\<in>set (db @ [?n]).
          case linkPrecedence c of
            primary \<Rightarrow> linkedId c = None
          | secondary \<Rightarrow>
              (\<exists>p\<in>set (db @ [?n]). linkedId c = Some (contact_id p) \<and> linkPrecedence p = primary)"
  proof
    fix c assume "c \<in> set (db @ [?n])"
    then consider "c = ?n" | "c \<in> set db" by auto
    then show "case linkPrecedence c of
            primary \<Rightarrow> linkedId c = None
          | secondary \<Rightarrow>
              (\<exists>p\<in>set (db @ [?n]). linkedId c = Some (contact_id p) \<and> linkPrecedence p = primary)"
    proof cases
      case 1
      then show ?thesis by simp
    next
      case 2
      show ?thesis
      proof (cases "linkPrecedence c")
        case primary
        then show ?thesis using store_inv_primary [OF assms 2] by simp
      next
        case secondary
        then show ?thesis using store_inv_secondary [OF assms 2] by auto
      qed
    qed
  qed
  with d show ?thesis
    unfolding store_inv_def fst_create_primary by blast
qed

lemma store_inv_committed:
  assumes inv: "store_inv db"
    and sub: "set (m # others) \<subseteq> set db"
    and dist: "distinct (m # others)"
    and prim: "\<forall>p\<in>set (m # others). linkPrecedence p = primary"
  shows "store_inv (committed db em ph now m others)"
proof -
  let ?mid = "contact_id m"
  let ?row = "row_after db ?mid others now"
  let ?new = "new_secondary db em ph now ?mid"
  let ?db' = "committed db em ph now m others"
  note d = store_inv_distinct [OF inv]
  have osub: "set others \<subseteq> set db" using sub by simp
  have m_db: "m \<in> set db" using sub by simp
  have m_prim: "linkPrecedence m = primary" using prim by simp
  have m_none: "linkedId m = None" using store_inv_primary [OF inv m_db m_prim] .
  have m_row: "?row m = m"
    using row_after_untouched [OF d osub m_db] dist m_none by simp
  have m_in: "m \<in> set ?db'"
    using m_db m_row by (force simp: committed_eq)
  have fresh: "new_id db \<notin> contact_id ` set db"
    using new_id_fresh by fastforce
  have d': "distinct (map contact_id ?db')"
    using d fresh by (simp add: committed_eq new_secondary_def)
  have rows: "\<forall>c\<in>set ?db'.
          case linkPrecedence c of
            primary \<Rightarrow> linkedId c = None
          | secondary \<Rightarrow>
              (\<exists>p\<in>set ?db'. linkedId c = Some (contact_id p) \<and> linkPrecedence p = primary)"
  proof
    fix c assume "c \<in> set ?db'"
    then consider "c = ?new" | x where "x \<in> set db" "c = ?row x"
      by (auto simp: committed_eq split: if_splits)
    then show "case linkPrecedence c of
            primary \<Rightarrow> linkedId c = None
          | secondary \<Rightarrow>
              (\<exists>p\<in>set ?db'. linkedId c = Some (contact_id p) \<and> linkPrecedence p = primary)"
    proof cases
      case 1
      then show ?thesis using m_in m_prim by (auto simp: new_secondary_def)
    next
      case 2
      show ?thesis
      proof (cases "x \<in> set others")
        case True
        from row_after_demoted [OF d osub 2(1) True, of ?mid now]
        show ?thesis using 2(2) m_in m_prim by auto
      next
        case out: False
        have prec: "linkPrecedence c = linkPrecedence x"
          using row_after_precedence [OF d osub 2(1) out] 2(2) by simp
        show ?thesis
        proof (cases "\<exists>d\<in>set others. linkedId x = Some (contact_id d)")
          case True
          then obtain d0 where o: "d0 \<in> set others" "linkedId x = Some (contact_id d0)" by blast
          have l: "linkedId c = Some ?mid"
            using row_after_child [OF d osub 2(1) o] 2(2) by simp
          have "linkPrecedence x = secondary"
          proof (rule ccontr)
            assume "linkPrecedence x \<noteq> secondary"
            then have "linkPrecedence x = primary" by (cases "linkPrecedence x") auto
            from store_inv_primary [OF inv 2(1) this] o(2) show False by simp
          qed
          with prec l m_in m_prim show ?thesis by auto
        next
          case False
          then have same: "c = x"
            using row_after_untouched [OF d osub 2(1) out] 2(2) by simp
          show ?thesis
          proof (cases "linkPrecedence x")
            case primary
            then show ?thesis using store_inv_primary [OF inv 2(1)] same by simp
          next
            case secondary
            from store_inv_secondary [OF inv 2(1) secondary]
            obtain p where p: "p \<in> set db" "linkedId x = Some (contact_id p)"
                "linkPrecedence p = primary" by blast
            have "p \<notin> set others" using False p(2) by blast
            moreover have "linkedId p = None" using store_inv_primary [OF inv p(1,3)] .
            ultimately have "?row p = p"
              using row_after_untouched [OF d osub p(1)] by simp
            then have "p \<in> set ?db'" using p(1) by (force simp: committed_eq)
            with p secondary same show ?thesis by auto
          qed
        qed
      qed
    qed
  qed
  from d' rows show ?thesis unfolding store_inv_def by blast
qed

lemma resolved_facts:
  assumes "store_inv db" "primary_contacts db (unique_matching_contacts db em ph) = m # others"
  shows "set (m # others) \<subseteq> set db" "distinct (m # others)"
    "\<forall>p\<in>set (m # others). linkPrecedence p = primary"
proof -
  let ?umc = "unique_matching_contacts db em ph"
  show "set (m # others) \<subseteq> set db"
    using primary_contacts_subset [OF unique_matching_subset, of db em ph] assms(2) by simp
  show "distinct (m # others)"
    using distinct_primary_contacts [of db ?umc] assms(2) by simp
  show "\<forall>p\<in>set (m # others). linkPrecedence p = primary"
    using primary_contacts_primary [OF assms(1) unique_matching_subset, of _ em ph] assms(2)
    by simp
qed

lemma store_inv_identify:
  assumes "store_inv db"
  shows "store_inv (fst (identify_contact set_iter db r now))"
proof -
  let ?em = "req_email r" and ?ph = "req_phoneNumber r"
  let ?umc = "unique_matching_contacts db ?em ?ph"
  show ?thesis
  proof (cases "primary_contacts db ?umc")
    case Nil
    then show ?thesis
      using assms store_inv_create_primary [OF assms]
      by (simp add: identify_store Let_def)
  next
    case (Cons m others)
    then have "?umc \<noteq> []" by auto
    moreover have "store_inv (committed db ?em ?ph now m others)"
      using store_inv_committed [OF assms resolved_facts [OF assms Cons]] .
    ultimately show ?thesis
      using assms Cons by (simp add: identify_store Let_def)
  qed
qed

section \<open>Facts about a request\<close>

lemma new_information_iff: "new_information v xs \<longleftrightarrow> truthy v \<and> v \<notin> set xs"
  by (cases v) (auto simp: new_information_def truthy_def set_vals)

lemma row_after_Nil [simp]: "row_after db mid [] now x = x"
  by (simp add: row_after_def)

lemma map_row_after_Nil [simp]: "map (row_after db mid [] now) xs = xs"
  by (induction xs) simp_all

lemma adds_information_single:
  "adds_information db em ph p [] \<longleftrightarrow>
     (truthy em \<and> em \<notin> email ` set (p # secondary_contacts db p)) \<or>
     (truthy ph \<and> ph \<notin> phoneNumber ` set (p # secondary_contacts db p))"
  by (simp add: adds_information_def all_related_contacts_def merged_snd new_information_iff Let_def)

lemma store_inv_Nil [simp]: "store_inv []"
  by (simp add: store_inv_def)

lemma main_row_unchanged:
  assumes inv: "store_inv db"
    and sub: "set (m # others) \<subseteq> set db"
    and dist: "distinct (m # others)"
    and prim: "\<forall>p\<in>set (m # others). linkPrecedence p = primary"
  shows "row_after db mid others now m = m"
proof -
  have "m \<in> set db" "set others \<subseteq> set db" using sub by simp_all
  moreover have "linkedId m = None"
    using store_inv_primary [OF inv] prim sub by simp
  ultimately show ?thesis
    using row_after_untouched [OF store_inv_distinct [OF inv], of others m] dist by simp
qed

lemma main_in_committed:
  assumes inv: "store_inv db"
    and sub: "set (m # others) \<subseteq> set db"
    and dist: "distinct (m # others)"
    and prim: "\<forall>p\<in>set (m # others). linkPrecedence p = primary"
  shows "m \<in> set (committed db em ph now m others)"
proof -
  have "m \<in> set db" using sub by simp
  then have "row_after db (contact_id m) others now m \<in> set (committed db em ph now m others)"
    by (simp add: committed_eq)
  then show ?thesis
    using main_row_unchanged [OF assms] by simp
qed

lemma find_by_id:
  assumes "distinct (map contact_id db)" "m \<in> set db"
  shows "find (\<lambda>c. contact_id c = contact_id m) db = Some m"
proof -
  obtain q where q: "find (\<lambda>x. contact_id x = contact_id m) db = Some q"
    using assms(2) by (cases "find (\<lambda>x. contact_id x = contact_id m) db") (auto simp: find_None_iff)
  then have "q \<in> set db" "contact_id q = contact_id m"
    by (auto simp: find_Some_iff)
  then have "q = m" using assms same_id by blast
  with q show ?thesis by simp
qed

text \<open>The result of a request that resolves to the primaries \<open>m # others\<close>.\<close>

lemma identify_resolved:
  assumes inv: "store_inv db"
    and res: "primary_contacts db (unique_matching_contacts db (req_email r) (req_phoneNumber r))
                = m # others"
  shows "identify_contact set_iter db r now =
           (committed db (req_email r) (req_phoneNumber r) now m others,
            Inr \<lparr>contact = response_data set_iter
                   (committed db (req_email r) (req_phoneNumber r) now m others) m\<rparr>)"
proof -
  let ?em = "req_email r" and ?ph = "req_phoneNumber r"
  let ?umc = "unique_matching_contacts db ?em ?ph"
  let ?db' = "committed db ?em ?ph now m others"
  have ne: "?umc \<noteq> []" using res by auto
  then have valid: "truthy ?em \<or> truthy ?ph"
    by (auto simp: unique_matching_contacts_def matching_contacts_def split: if_splits)
  have "store_inv ?db'"
    using store_inv_committed [OF inv resolved_facts [OF inv res]] .
  then have "find (\<lambda>c. contact_id c = contact_id m) ?db' = Some m"
    using find_by_id [OF store_inv_distinct] main_in_committed [OF inv resolved_facts [OF inv res]]
    by blast
  then show ?thesis
    using ne valid res by (simp add: identify_contact_def Let_def respond_def)
qed

lemma store_inv_requests: "store_inv db \<Longrightarrow> store_inv (requests set_iter db rs)"
proof (induction rs arbitrary: db)
  case Nil
  then show ?case by simp
next
  case (Cons a rs)
  obtain r now where a: "a = (r, now)" by (cases a)
  show ?case
    unfolding a requests.simps
    by (rule Cons.IH) (rule store_inv_identify [OF Cons.prems])
qed

lemma example_merge_eval:
  "identify_contact remdups example_db_merge (example_request ''a'' ''2'') 9 =
     ([example_row 1 ''a'' ''1'' None primary 1,
       (example_row 2 ''b'' ''2'' (Some 1) secondary 2)\<lparr>updatedAt := 9\<rparr>,
       (example_row 3 ''c'' ''2'' (Some 1) secondary 3)\<lparr>updatedAt := 9\<rparr>],
      Inr \<lparr>contact = \<lparr>primaryContatctId = 1, emails = [''a'', ''b'', ''c''],
            phoneNumbers = [''1'', ''2''], secondaryContactIds = [2, 3]\<rparr>\<rparr>)"
  by code_simp

lemma example_merge_resolved:
  "primary_contacts example_db_merge
     (unique_matching_contacts example_db_merge (Some ''a'') (Some ''2'')) =
     [example_row 1 ''a'' ''1'' None primary 1, example_row 2 ''b'' ''2'' None primary 2]"
  by code_simp

lemma store_inv_example_db_merge: "store_inv example_db_merge"
  by code_simp

section \<open>Facts about rows, histories and responses\<close>

lemma evolves_refl [simp]: "evolves c c"
  by (simp add: evolves_def)

lemma evolves_trans: "evolves a b \<Longrightarrow> evolves b c \<Longrightarrow> evolves a c"
  unfolding evolves_def by (cases "linkPrecedence a"; cases "linkPrecedence b") auto

lemma row_after_fields [simp]:
  "createdAt (row_after db mid cs now x) = createdAt x"
  "email (row_after db mid cs now x) = email x"
  "phoneNumber (row_after db mid cs now x) = phoneNumber x"
  by (simp_all add: row_after_def touch_def set_demoted_def set_parent_def)

lemma evolves_row_after: "evolves x (row_after db mid cs now x)"
  by (simp add: evolves_def row_after_def touch_def set_demoted_def set_parent_def)

lemma umc_valid: "unique_matching_contacts db em ph \<noteq> [] \<Longrightarrow> truthy em \<or> truthy ph"
  by (auto simp: unique_matching_contacts_def matching_contacts_def split: if_splits)

lemma identify_store_resolved:
  assumes "primary_contacts db (unique_matching_contacts db (req_email r) (req_phoneNumber r))
             = m # others"
  shows "fst (identify_contact set_iter db r now) =
           committed db (req_email r) (req_phoneNumber r) now m others"
proof -
  have ne: "unique_matching_contacts db (req_email r) (req_phoneNumber r) \<noteq> []"
    using assms by auto
  from umc_valid [OF ne] ne assms show ?thesis
    by (auto simp: identify_store Let_def)
qed

lemma identify_rows:
  "\<exists>mid added. fst (identify_contact set_iter db r now) =
     map (row_after db mid
            (tl (primary_contacts db
                   (unique_matching_contacts db (req_email r) (req_phoneNumber r)))) now) db
     @ added"
proof -
  let ?pcs = "primary_contacts db (unique_matching_contacts db (req_email r) (req_phoneNumber r))"
  show ?thesis
  proof (cases ?pcs)
    case Nil
    then have "fst (identify_contact set_iter db r now) = db \<or>
               fst (identify_contact set_iter db r now) =
                 fst (create_primary db (req_email r) (req_phoneNumber r) now)"
      by (simp add: identify_store Let_def)
    then have "\<exists>added. fst (identify_contact set_iter db r now) = db @ added"
      by (auto simp: fst_create_primary)
    then show ?thesis using Nil by simp
  next
    case (Cons m others)
    show ?thesis
      unfolding identify_store_resolved [OF Cons] Cons committed_eq by auto
  qed
qed

lemma identify_evolves:
  "length db \<le> length (fst (identify_contact set_iter db r now)) \<and>
   (\<forall>i<length db. evolves (db ! i) (fst (identify_contact set_iter db r now) ! i))"
proof -
  obtain mid added cs where
    "fst (identify_contact set_iter db r now) = map (row_after db mid cs now) db @ added"
    using identify_rows by blast
  then show ?thesis
    by (simp add: nth_append evolves_row_after)
qed

lemma requests_evolves:
  "length db \<le> length (requests set_iter db rs) \<and>
   (\<forall>i<length db. evolves (db ! i) (requests set_iter db rs ! i))"
proof (induction rs arbitrary: db)
  case Nil
  then show ?case by simp
next
  case (Cons a rs)
  obtain r now where a: "a = (r, now)" by (cases a)
  let ?db1 = "fst (identify_contact set_iter db r now)"
  have step: "length db \<le> length ?db1" "\<forall>i<length db. evolves (db ! i) (?db1 ! i)"
    using identify_evolves by blast+
  have rest: "length ?db1 \<le> length (requests set_iter ?db1 rs)"
      "\<forall>i<length ?db1. evolves (?db1 ! i) (requests set_iter ?db1 rs ! i)"
    using Cons.IH by blast+
  have "length db \<le> length (requests set_iter ?db1 rs)"
    using step(1) rest(1) by simp
  moreover have "\<forall>i<length db. evolves (db ! i) (requests set_iter ?db1 rs ! i)"
  proof (intro allI impI)
    fix i assume i: "i < length db"
    then have "i < length ?db1" using step(1) by simp
    with rest(2) have "evolves (?db1 ! i) (requests set_iter ?db1 rs ! i)" by blast
    with step(2) i show "evolves (db ! i) (requests set_iter ?db1 rs ! i)"
      using evolves_trans by blast
  qed
  ultimately show ?case by (simp add: a)
qed

lemma set_tl_subset: "set (tl xs) \<subseteq> set xs"
  by (cases xs) auto

lemma sorted_head_le: "sorted (map f (m # others)) \<Longrightarrow> p \<in> set others \<Longrightarrow> f m \<le> f p"
  by auto






lemma set_iter_ok_remdups: "set_iter_ok remdups"
  by (simp add: set_iter_ok_def)

lemma example_merge_changed:
  "linkPrecedence (requests remdups example_db_merge [(example_request ''a'' ''2'', 9)] ! 1)
     \<noteq> linkPrecedence (example_db_merge ! 1)"
  by code_simp

lemma example_merge_no_information:
  "\<not> adds_information example_db_merge (Some ''a'') (Some ''2'')
       (example_row 1 ''a'' ''1'' None primary 1) [example_row 2 ''b'' ''2'' None primary 2]"
  by code_simp




section \<open>Validation\<close>

text \<open>
  Claim C7. A request that supplies neither an email nor a phone number (each is absent or
  the empty string, which Python takes as false) is answered with the client error 400,
  and the table is left as it was.
\<close>

theorem validation_error:
  "\<not> truthy (req_email r) \<Longrightarrow> \<not> truthy (req_phoneNumber r) \<Longrightarrow>
     identify_contact set_iter db r now = (db, Inl HTTP_400_BAD_REQUEST)"
  by (simp add: identify_contact_def)

theorem validation_error_witness:
  "\<not> truthy (req_email \<lparr>req_email = None, req_phoneNumber = Some ''''\<rparr>) \<and>
   \<not> truthy (req_phoneNumber \<lparr>req_email = None, req_phoneNumber = Some ''''\<rparr>) \<and>
   identify_contact remdups [example_row 1 ''a'' ''1'' None primary 5]
     \<lparr>req_email = None, req_phoneNumber = Some ''''\<rparr> 6 =
     ([example_row 1 ''a'' ''1'' None primary 5], Inl HTTP_400_BAD_REQUEST)"
  using validation_error
    [of "\<lparr>req_email = None, req_phoneNumber = Some ''''\<rparr>" remdups
        "[example_row 1 ''a'' ''1'' None primary 5]" 6]
  by (simp add: truthy_def)

section \<open>Creating a primary\<close>

text \<open>
  Claim C4. When at least one field is supplied and no row has the given email or the given
  phone number, the table gains exactly one row: a primary with no \<open>linkedId\<close>, the
  given email and phone number and a fresh id. The response names the new row, lists the
  email and the phone number that were given, and has no secondary ids.
\<close>

theorem create_primary_when_no_match:
  assumes "truthy em \<or> truthy ph"
    and "\<forall>c\<in>set db. (truthy em \<longrightarrow> email c \<noteq> em) \<and> (truthy ph \<longrightarrow> phoneNumber c \<noteq> ph)"
  shows "identify_contact set_iter db \<lparr>req_email = em, req_phoneNumber = ph\<rparr> now =
           (db @ [\<lparr>contact_id = new_id db, phoneNumber = ph, email = em, linkedId = None,
                   linkPrecedence = primary, createdAt = now, updatedAt = now\<rparr>],
            Inr \<lparr>contact =
              \<lparr>primaryContatctId = new_id db,
               emails = (if truthy em then [the em] else []),
               phoneNumbers = (if truthy ph then [the ph] else []),
               secondaryContactIds = []\<rparr>\<rparr>)
         \<and> new_id db \<notin> contact_id ` set db"
proof -
  have "matching_contacts db em ph = []"
    using assms(2) by (simp add: matching_Nil_iff)
  then have "unique_matching_contacts db em ph = []"
    by (simp add: unique_matching_contacts_def)
  moreover have "new_id db \<notin> contact_id ` set db"
    using new_id_fresh by fastforce
  ultimately show ?thesis
    using assms(1)
    by (auto simp: identify_contact_def create_primary_def vals_single)
qed

theorem create_primary_when_no_match_witness:
  "identify_contact remdups [example_row 1 ''a'' ''1'' None primary 5]
     \<lparr>req_email = Some ''b'', req_phoneNumber = None\<rparr> 6 =
     ([example_row 1 ''a'' ''1'' None primary 5,
       \<lparr>contact_id = 2, phoneNumber = None, email = Some ''b'', linkedId = None,
        linkPrecedence = primary, createdAt = 6, updatedAt = 6\<rparr>],
      Inr \<lparr>contact =
        \<lparr>primaryContatctId = 2, emails = [''b''], phoneNumbers = [],
         secondaryContactIds = []\<rparr>\<rparr>)"
  using create_primary_when_no_match
    [of "Some ''b''" None "[example_row 1 ''a'' ''1'' None primary 5]" remdups 6]
  by (simp add: truthy_def example_row_def new_id_def)

section \<open>One group: attach or do nothing\<close>

text \<open>
  Claim C3. When the matched rows resolve to exactly one primary \<open>p\<close>, the group is
  \<open>p\<close> and the rows linked to it. If the request supplies an email that no member of the
  group has, or a phone number that no member has, the table gains exactly one row: a
  secondary linked to \<open>p\<close> that carries both fields of the request. Otherwise the table
  is left exactly as it was.
\<close>

theorem attach_or_noop:
  assumes "primary_contacts db (unique_matching_contacts db em ph) = [p]"
  shows "fst (identify_contact set_iter db \<lparr>req_email = em, req_phoneNumber = ph\<rparr> now) =
     (if (truthy em \<and> em \<notin> email ` set (p # secondary_contacts db p)) \<or>
         (truthy ph \<and> ph \<notin> phoneNumber ` set (p # secondary_contacts db p))
      then db @ [\<lparr>contact_id = new_id db, phoneNumber = ph, email = em,
                  linkedId = Some (contact_id p), linkPrecedence = secondary,
                  createdAt = now, updatedAt = now\<rparr>]
      else db)"
proof -
  have "unique_matching_contacts db em ph \<noteq> []"
    using assms by auto
  then have "fst (identify_contact set_iter db \<lparr>req_email = em, req_phoneNumber = ph\<rparr> now) =
      (if \<not> truthy em \<and> \<not> truthy ph then db else committed db em ph now p [])"
    using assms by (simp add: identify_store Let_def)
  moreover have "truthy em \<or> truthy ph"
    using \<open>unique_matching_contacts db em ph \<noteq> []\<close>
    by (auto simp: unique_matching_contacts_def matching_contacts_def split: if_splits)
  ultimately show ?thesis
    using adds_information_single [of db em ph p]
    by (simp add: committed_eq new_secondary_def del: set_simps)
qed

theorem attach_or_noop_witness:
  "primary_contacts [example_row 1 ''a'' ''1'' None primary 5]
     (unique_matching_contacts [example_row 1 ''a'' ''1'' None primary 5] (Some ''a'') (Some ''2''))
     = [example_row 1 ''a'' ''1'' None primary 5] \<and>
   fst (identify_contact remdups [example_row 1 ''a'' ''1'' None primary 5]
          \<lparr>req_email = Some ''a'', req_phoneNumber = Some ''2''\<rparr> 6) =
     [example_row 1 ''a'' ''1'' None primary 5,
      \<lparr>contact_id = 2, phoneNumber = Some ''2'', email = Some ''a'', linkedId = Some 1,
       linkPrecedence = secondary, createdAt = 6, updatedAt = 6\<rparr>]"
proof -
  have h: "primary_contacts [example_row 1 ''a'' ''1'' None primary 5]
     (unique_matching_contacts [example_row 1 ''a'' ''1'' None primary 5] (Some ''a'') (Some ''2''))
     = [example_row 1 ''a'' ''1'' None primary 5]"
    by code_simp
  show ?thesis
    using h attach_or_noop [OF h, of remdups 6]
    by (simp add: truthy_def secondary_contacts_def example_row_def new_id_def)
qed

section \<open>Repeating an observation\<close>

text \<open>
  Claim C8. An observation with at least one field supplied, sent twice to an empty table:
  the first request creates exactly one row, a primary, and the second request leaves the
  table exactly as the first one left it (no row created, none updated).
\<close>

theorem idempotent_on_empty_store:
  assumes "truthy em \<or> truthy ph"
  shows "fst (identify_contact set_iter [] \<lparr>req_email = em, req_phoneNumber = ph\<rparr> t1) =
           [\<lparr>contact_id = 1, phoneNumber = ph, email = em, linkedId = None,
             linkPrecedence = primary, createdAt = t1, updatedAt = t1\<rparr>] \<and>
         fst (identify_contact set_iter
                (fst (identify_contact set_iter [] \<lparr>req_email = em, req_phoneNumber = ph\<rparr> t1))
                \<lparr>req_email = em, req_phoneNumber = ph\<rparr> t2) =
           fst (identify_contact set_iter [] \<lparr>req_email = em, req_phoneNumber = ph\<rparr> t1)"
proof -
  let ?r = "\<lparr>req_email = em, req_phoneNumber = ph\<rparr>"
  let ?p = "\<lparr>contact_id = 1, phoneNumber = ph, email = em, linkedId = None,
             linkPrecedence = primary, createdAt = t1, updatedAt = t1\<rparr>"
  have first: "fst (identify_contact set_iter [] ?r t1) = [?p]"
    using assms
    by (simp add: identify_store Let_def unique_matching_contacts_def matching_contacts_def
        fst_create_primary new_id_def)
  have umc: "unique_matching_contacts [?p] em ph = [?p]"
    using assms
    by (auto simp: unique_matching_contacts_def matching_contacts_def fromkeys_def)
  have pcs: "primary_contacts [?p] [?p] = [?p]"
    by (simp add: primary_contacts_def fromkeys_def)
  have "secondary_contacts [?p] ?p = []"
    by (simp add: secondary_contacts_def)
  then have "\<not> adds_information [?p] em ph ?p []"
    by (simp add: adds_information_single)
  then have "fst (identify_contact set_iter [?p] ?r t2) = [?p]"
    using assms umc pcs by (simp add: identify_store Let_def committed_eq)
  with first show ?thesis by simp
qed

theorem idempotent_on_empty_store_witness:
  "(truthy (Some ''a'') \<or> truthy None) \<and>
   fst (identify_contact remdups [] \<lparr>req_email = Some ''a'', req_phoneNumber = None\<rparr> 1) =
     [\<lparr>contact_id = 1, phoneNumber = None, email = Some ''a'', linkedId = None,
       linkPrecedence = primary, createdAt = 1, updatedAt = 1\<rparr>] \<and>
   fst (identify_contact remdups
          [\<lparr>contact_id = 1, phoneNumber = None, email = Some ''a'', linkedId = None,
            linkPrecedence = primary, createdAt = 1, updatedAt = 1\<rparr>]
          \<lparr>req_email = Some ''a'', req_phoneNumber = None\<rparr> 2) =
     [\<lparr>contact_id = 1, phoneNumber = None, email = Some ''a'', linkedId = None,
       linkPrecedence = primary, createdAt = 1, updatedAt = 1\<rparr>]"
proof -
  have h: "truthy (Some ''a'') \<or> truthy None"
    by (simp add: truthy_def)
  from idempotent_on_empty_store [OF h, of remdups 1 2] h show ?thesis
    by auto
qed

section \<open>Resolving the primaries\<close>

text \<open>
  Claim C6. In a table that satisfies the invariants of the data model, every matched
  primary is in the resolved list, every matched secondary has the row its \<open>linkedId\<close>
  points to in the resolved list, and the resolved list holds nothing else, only primaries
  of the table. The resolved list is empty exactly when no row matched, so taking its first
  element never raises \<open>IndexError\<close>.
\<close>

theorem resolver_owners:
  assumes "store_inv db"
  shows "(\<forall>c\<in>set (unique_matching_contacts db (req_email r) (req_phoneNumber r)).
            (linkPrecedence c = primary \<longrightarrow>
               c \<in> set (primary_contacts db
                          (unique_matching_contacts db (req_email r) (req_phoneNumber r)))) \<and>
            (linkPrecedence c = secondary \<longrightarrow>
               (\<exists>p\<in>set db. linkedId c = Some (contact_id p) \<and>
                  p \<in> set (primary_contacts db
                             (unique_matching_contacts db (req_email r) (req_phoneNumber r)))))) \<and>
         (\<forall>p\<in>set (primary_contacts db
                     (unique_matching_contacts db (req_email r) (req_phoneNumber r))).
            p \<in> set db \<and> linkPrecedence p = primary \<and>
            (p \<in> set (unique_matching_contacts db (req_email r) (req_phoneNumber r)) \<or>
             (\<exists>c\<in>set (unique_matching_contacts db (req_email r) (req_phoneNumber r)).
                linkPrecedence c = secondary \<and> linkedId c = Some (contact_id p)))) \<and>
         (primary_contacts db (unique_matching_contacts db (req_email r) (req_phoneNumber r)) = []
            \<longleftrightarrow> unique_matching_contacts db (req_email r) (req_phoneNumber r) = []) \<and>
         snd (identify_contact set_iter db r now) \<noteq> Inl IndexError"
proof -
  let ?umc = "unique_matching_contacts db (req_email r) (req_phoneNumber r)"
  let ?pcs = "primary_contacts db ?umc"
  note d = store_inv_distinct [OF assms]
  have sub: "set ?umc \<subseteq> set db" by (rule unique_matching_subset)
  have a: "\<forall>c\<in>set ?umc.
            (linkPrecedence c = primary \<longrightarrow> c \<in> set ?pcs) \<and>
            (linkPrecedence c = secondary \<longrightarrow>
               (\<exists>p\<in>set db. linkedId c = Some (contact_id p) \<and> p \<in> set ?pcs))"
  proof (intro ballI conjI impI)
    fix c assume "c \<in> set ?umc" "linkPrecedence c = primary"
    then show "c \<in> set ?pcs" by (simp add: set_primary_contacts)
  next
    fix c assume c: "c \<in> set ?umc" "linkPrecedence c = secondary"
    then have "c \<in> set db" using sub by blast
    from store_inv_secondary [OF assms this c(2)]
    obtain p where p: "p \<in> set db" "linkedId c = Some (contact_id p)" by blast
    have "primary_contact db c = Some p"
      using primary_contact_found [OF d p] .
    with c have "p \<in> set ?pcs" by (auto simp: set_primary_contacts)
    with p show "\<exists>p\<in>set db. linkedId c = Some (contact_id p) \<and> p \<in> set ?pcs" by blast
  qed
  have b: "\<forall>p\<in>set ?pcs. p \<in> set db \<and> linkPrecedence p = primary \<and>
            (p \<in> set ?umc \<or>
             (\<exists>c\<in>set ?umc. linkPrecedence c = secondary \<and> linkedId c = Some (contact_id p)))"
  proof
    fix p assume p: "p \<in> set ?pcs"
    have "p \<in> set db" using primary_contacts_subset [OF sub] p by blast
    moreover have "linkPrecedence p = primary"
      using primary_contacts_primary [OF assms sub p] .
    moreover have "p \<in> set ?umc \<or>
             (\<exists>c\<in>set ?umc. linkPrecedence c = secondary \<and> linkedId c = Some (contact_id p))"
      using p by (auto simp: set_primary_contacts dest: primary_contact_Some)
    ultimately show "p \<in> set db \<and> linkPrecedence p = primary \<and>
            (p \<in> set ?umc \<or>
             (\<exists>c\<in>set ?umc. linkPrecedence c = secondary \<and> linkedId c = Some (contact_id p)))"
      by blast
  qed
  have c: "?pcs = [] \<longleftrightarrow> ?umc = []"
    using primary_contacts_nonempty [OF assms sub] by auto
  have e: "snd (identify_contact set_iter db r now) \<noteq> Inl IndexError"
  proof (cases ?pcs)
    case Nil
    then have "?umc = []" using c by simp
    then show ?thesis
      by (simp add: identify_contact_def Let_def create_primary_def)
  next
    case (Cons m others)
    then show ?thesis
      using identify_resolved [OF assms Cons] by simp
  qed
  from a b c e show ?thesis by blast
qed

theorem resolver_owners_witness:
  "store_inv example_db_merge \<and>
   snd (identify_contact remdups example_db_merge (example_request ''a'' ''2'') 9)
     \<noteq> Inl IndexError"
  using store_inv_example_db_merge
    resolver_owners [OF store_inv_example_db_merge, of "example_request ''a'' ''2''" remdups 9]
  by blast

section \<open>Links have depth one\<close>

text \<open>
  Claim C2. Starting from a table that satisfies the invariants (the empty table does),
  after every sequence of requests each secondary row has a \<open>linkedId\<close> that is the id
  of a primary row of the table. In a merge that resolves to the primaries \<open>m # others\<close>,
  \<open>m\<close> stays a primary row and every row that was linked to one of \<open>others\<close> is
  linked to \<open>m\<close> after the request.
\<close>

theorem link_depth_one:
  assumes "store_inv db"
  shows "(\<forall>c\<in>set (requests set_iter db rs).
            linkPrecedence c = secondary \<longrightarrow>
            (\<exists>p\<in>set (requests set_iter db rs).
               linkedId c = Some (contact_id p) \<and> linkPrecedence p = primary)) \<and>
         (\<forall>m others.
            primary_contacts db (unique_matching_contacts db (req_email r) (req_phoneNumber r))
              = m # others \<longrightarrow>
            m \<in> set (fst (identify_contact set_iter db r now)) \<and> linkPrecedence m = primary \<and>
            (\<forall>x\<in>set db.
               (\<exists>d\<in>set others. linkedId x = Some (contact_id d)) \<longrightarrow>
               (\<exists>x'\<in>set (fst (identify_contact set_iter db r now)).
                  contact_id x' = contact_id x \<and> linkedId x' = Some (contact_id m))))"
proof (intro conjI allI impI ballI)
  fix c assume "c \<in> set (requests set_iter db rs)" "linkPrecedence c = secondary"
  then show "\<exists>p\<in>set (requests set_iter db rs).
               linkedId c = Some (contact_id p) \<and> linkPrecedence p = primary"
    using store_inv_secondary [OF store_inv_requests [OF assms]] by blast
next
  fix m others
  assume res: "primary_contacts db (unique_matching_contacts db (req_email r) (req_phoneNumber r))
                 = m # others"
  note facts = resolved_facts [OF assms res]
  have st: "fst (identify_contact set_iter db r now) =
              committed db (req_email r) (req_phoneNumber r) now m others"
    using identify_resolved [OF assms res] by simp
  show "m \<in> set (fst (identify_contact set_iter db r now))"
    unfolding st by (rule main_in_committed [OF assms facts])
  show "linkPrecedence m = primary" using facts(3) by simp
  fix x assume x: "x \<in> set db" "\<exists>d\<in>set others. linkedId x = Some (contact_id d)"
  then obtain d where d: "d \<in> set others" "linkedId x = Some (contact_id d)" by blast
  have osub: "set others \<subseteq> set db" using facts(1) by simp
  let ?x' = "row_after db (contact_id m) others now x"
  have mem: "?x' \<in> set (fst (identify_contact set_iter db r now))"
    unfolding st using x(1) by (simp add: committed_eq)
  have "linkedId ?x' = Some (contact_id m)"
    using row_after_child [OF store_inv_distinct [OF assms] osub x(1) d] .
  then have "contact_id ?x' = contact_id x \<and> linkedId ?x' = Some (contact_id m)"
    by simp
  with mem show "\<exists>x'\<in>set (fst (identify_contact set_iter db r now)).
                  contact_id x' = contact_id x \<and> linkedId x' = Some (contact_id m)"
    by (rule rev_bexI)
qed

theorem link_depth_one_witness:
  "store_inv example_db_merge \<and>
   primary_contacts example_db_merge
     (unique_matching_contacts example_db_merge (Some ''a'') (Some ''2'')) =
     [example_row 1 ''a'' ''1'' None primary 1, example_row 2 ''b'' ''2'' None primary 2] \<and>
   (\<exists>x'\<in>set (fst (identify_contact remdups example_db_merge (example_request ''a'' ''2'') 9)).
      contact_id x' = 3 \<and> linkedId x' = Some 1)"
proof -
  let ?r = "example_request ''a'' ''2''"
  let ?p1 = "example_row 1 ''a'' ''1'' None primary 1"
  let ?p2 = "example_row 2 ''b'' ''2'' None primary 2"
  let ?s3 = "example_row 3 ''c'' ''2'' (Some 2) secondary 3"
  have res: "primary_contacts example_db_merge
      (unique_matching_contacts example_db_merge (req_email ?r) (req_phoneNumber ?r)) = ?p1 # [?p2]"
    using example_merge_resolved by (simp add: example_request_def)
  from link_depth_one [OF store_inv_example_db_merge, of remdups "[]" ?r 9] res
  have "\<forall>x\<in>set example_db_merge.
          (\<exists>d\<in>set [?p2]. linkedId x = Some (contact_id d)) \<longrightarrow>
          (\<exists>x'\<in>set (fst (identify_contact remdups example_db_merge ?r 9)).
             contact_id x' = contact_id x \<and> linkedId x' = Some (contact_id ?p1))"
    by blast
  moreover have "?s3 \<in> set example_db_merge"
    by (simp add: example_db_merge_def)
  moreover have "\<exists>d\<in>set [?p2]. linkedId ?s3 = Some (contact_id d)"
    by (simp add: example_row_def)
  ultimately have "\<exists>x'\<in>set (fst (identify_contact remdups example_db_merge ?r 9)).
             contact_id x' = contact_id ?s3 \<and> linkedId x' = Some (contact_id ?p1)"
    by blast
  then have "\<exists>x'\<in>set (fst (identify_contact remdups example_db_merge ?r 9)).
             contact_id x' = 3 \<and> linkedId x' = Some 1"
    by (simp add: example_row_def)
  with store_inv_example_db_merge example_merge_resolved show ?thesis
    by blast
qed

section \<open>The frame of a request\<close>

text \<open>
  Claim C10. With ids that are distinct (the primary key), a request keeps every existing
  row at its place with its id, creation time, email and phone number. With the absorbed
  primaries being the resolved primaries after the first, only an absorbed primary changes
  its precedence, and a row that is neither an absorbed primary nor linked to one is left
  exactly as it was, \<open>updatedAt\<close> included. So a merge changes only the precedence and
  \<open>linkedId\<close> of the absorbed primaries and the \<open>linkedId\<close> of the rows linked to
  them, and the time of their update.
\<close>

theorem merge_frame:
  assumes "distinct (map contact_id db)"
  shows "length db \<le> length (fst (identify_contact set_iter db r now)) \<and>
    (\<forall>i<length db.
       contact_id (fst (identify_contact set_iter db r now) ! i) = contact_id (db ! i) \<and>
       createdAt (fst (identify_contact set_iter db r now) ! i) = createdAt (db ! i) \<and>
       email (fst (identify_contact set_iter db r now) ! i) = email (db ! i) \<and>
       phoneNumber (fst (identify_contact set_iter db r now) ! i) = phoneNumber (db ! i) \<and>
       (db ! i \<notin> set (tl (primary_contacts db
            (unique_matching_contacts db (req_email r) (req_phoneNumber r)))) \<longrightarrow>
          linkPrecedence (fst (identify_contact set_iter db r now) ! i) =
            linkPrecedence (db ! i)) \<and>
       (db ! i \<notin> set (tl (primary_contacts db
            (unique_matching_contacts db (req_email r) (req_phoneNumber r)))) \<and>
        (\<forall>d\<in>set (tl (primary_contacts db
            (unique_matching_contacts db (req_email r) (req_phoneNumber r)))).
           linkedId (db ! i) \<noteq> Some (contact_id d)) \<longrightarrow>
          fst (identify_contact set_iter db r now) ! i = db ! i))"
proof -
  let ?abs = "tl (primary_contacts db
                (unique_matching_contacts db (req_email r) (req_phoneNumber r)))"
  let ?db' = "fst (identify_contact set_iter db r now)"
  from identify_rows [of set_iter db r now]
  obtain mid added where st: "?db' = map (row_after db mid ?abs now) db @ added"
    by (elim exE)
  have sub: "set ?abs \<subseteq> set db"
    using set_tl_subset [of "primary_contacts db
                (unique_matching_contacts db (req_email r) (req_phoneNumber r))"]
      primary_contacts_subset [OF unique_matching_subset, of db "req_email r" "req_phoneNumber r"]
    by (rule subset_trans)
  have nth: "?db' ! i = row_after db mid ?abs now (db ! i)" if "i < length db" for i
    using that by (simp add: st nth_append)
  have "length db \<le> length ?db'" by (simp add: st)
  moreover have "\<forall>i<length db.
       contact_id (?db' ! i) = contact_id (db ! i) \<and>
       createdAt (?db' ! i) = createdAt (db ! i) \<and>
       email (?db' ! i) = email (db ! i) \<and>
       phoneNumber (?db' ! i) = phoneNumber (db ! i) \<and>
       (db ! i \<notin> set ?abs \<longrightarrow> linkPrecedence (?db' ! i) = linkPrecedence (db ! i)) \<and>
       (db ! i \<notin> set ?abs \<and> (\<forall>d\<in>set ?abs. linkedId (db ! i) \<noteq> Some (contact_id d)) \<longrightarrow>
          ?db' ! i = db ! i)"
  proof (intro allI impI)
    fix i assume i: "i < length db"
    then have mem: "db ! i \<in> set db" by simp
    show "contact_id (?db' ! i) = contact_id (db ! i) \<and>
       createdAt (?db' ! i) = createdAt (db ! i) \<and>
       email (?db' ! i) = email (db ! i) \<and>
       phoneNumber (?db' ! i) = phoneNumber (db ! i) \<and>
       (db ! i \<notin> set ?abs \<longrightarrow> linkPrecedence (?db' ! i) = linkPrecedence (db ! i)) \<and>
       (db ! i \<notin> set ?abs \<and> (\<forall>d\<in>set ?abs. linkedId (db ! i) \<noteq> Some (contact_id d)) \<longrightarrow>
          ?db' ! i = db ! i)"
      unfolding nth [OF i]
      using row_after_precedence [OF assms sub mem, of mid now]
        row_after_untouched [OF assms sub mem, of mid now]
      by simp
  qed
  ultimately show ?thesis by blast
qed

theorem merge_frame_witness:
  "distinct (map contact_id example_db_merge) \<and>
   fst (identify_contact remdups example_db_merge (example_request ''a'' ''2'') 9) ! 0
     = example_db_merge ! 0 \<and>
   email (fst (identify_contact remdups example_db_merge (example_request ''a'' ''2'') 9) ! 2)
     = email (example_db_merge ! 2)"
proof -
  let ?r = "example_request ''a'' ''2''"
  let ?p2 = "example_row 2 ''b'' ''2'' None primary 2"
  have d: "distinct (map contact_id example_db_merge)"
    by (simp add: example_db_merge_def example_row_def)
  note fr = merge_frame [OF d, of remdups ?r 9]
  have len: "0 < length example_db_merge" "2 < length example_db_merge"
    by (simp_all add: example_db_merge_def)
  have ab: "tl (primary_contacts example_db_merge
      (unique_matching_contacts example_db_merge (req_email ?r) (req_phoneNumber ?r))) = [?p2]"
    using example_merge_resolved by (simp add: example_request_def)
  have out: "example_db_merge ! 0 \<notin> set [?p2] \<and>
      (\<forall>d\<in>set [?p2]. linkedId (example_db_merge ! 0) \<noteq> Some (contact_id d))"
    by (simp add: example_db_merge_def example_row_def)
  note fr0 = fr [THEN conjunct2, THEN spec, of 0, THEN mp, OF len(1), unfolded ab]
  have a: "fst (identify_contact remdups example_db_merge ?r 9) ! 0 = example_db_merge ! 0"
    by (rule fr0 [THEN conjunct2, THEN conjunct2, THEN conjunct2, THEN conjunct2,
          THEN conjunct2, THEN mp, OF out])
  note fr2 = fr [THEN conjunct2, THEN spec, of 2, THEN mp, OF len(2)]
  have b: "email (fst (identify_contact remdups example_db_merge ?r 9) ! 2)
             = email (example_db_merge ! 2)"
    by (rule fr2 [THEN conjunct2, THEN conjunct2, THEN conjunct1])
  from d a b show ?thesis by (intro conjI)
qed

section \<open>The life of a row\<close>

text \<open>
  Claim C9, as amended. Over every sequence of requests from every table, no row is deleted
  and every row keeps its place and id; a secondary row stays secondary; a \<open>linkedId\<close>
  that is set stays set; when the precedence of a row has changed, it has changed from
  primary to secondary, its \<open>linkedId\<close> is set, and no later request changes the
  precedence again. So the precedence changes at most once. The \<open>linkedId\<close> is not
  said to change once only: later merges point it to the primary that survives them.
\<close>

theorem precedence_changes_once:
  "length db \<le> length (requests set_iter db rs) \<and>
   (\<forall>i<length db.
      contact_id (requests set_iter db rs ! i) = contact_id (db ! i) \<and>
      (linkPrecedence (db ! i) = secondary \<longrightarrow>
         linkPrecedence (requests set_iter db rs ! i) = secondary) \<and>
      (linkedId (db ! i) \<noteq> None \<longrightarrow> linkedId (requests set_iter db rs ! i) \<noteq> None) \<and>
      (linkPrecedence (requests set_iter db rs ! i) \<noteq> linkPrecedence (db ! i) \<longrightarrow>
         linkPrecedence (db ! i) = primary \<and>
         linkPrecedence (requests set_iter db rs ! i) = secondary \<and>
         linkedId (requests set_iter db rs ! i) \<noteq> None \<and>
         linkPrecedence (requests set_iter (requests set_iter db rs) rs' ! i) = secondary))"
proof (intro conjI allI impI)
  show "length db \<le> length (requests set_iter db rs)"
    using requests_evolves by blast
next
  fix i assume i: "i < length db"
  let ?c = "db ! i" and ?c1 = "requests set_iter db rs ! i"
  let ?c2 = "requests set_iter (requests set_iter db rs) rs' ! i"
  have e1: "evolves ?c ?c1" using requests_evolves i by blast
  have "i < length (requests set_iter db rs)"
    using requests_evolves [of db set_iter rs] i by simp
  then have e2: "evolves ?c1 ?c2" using requests_evolves by blast
  show "contact_id ?c1 = contact_id ?c" using e1 by (simp add: evolves_def)
  show "linkPrecedence ?c1 = secondary" if "linkPrecedence ?c = secondary"
    using e1 that by (simp add: evolves_def)
  show "linkedId ?c1 \<noteq> None" if "linkedId ?c \<noteq> None"
    using e1 that by (simp add: evolves_def)
  assume ch: "linkPrecedence ?c1 \<noteq> linkPrecedence ?c"
  show p: "linkPrecedence ?c = primary"
    using e1 ch by (cases "linkPrecedence ?c") (auto simp: evolves_def)
  show s: "linkPrecedence ?c1 = secondary"
    using ch p by (cases "linkPrecedence ?c1") auto
  show "linkedId ?c1 \<noteq> None" using e1 ch by (simp add: evolves_def)
  show "linkPrecedence ?c2 = secondary" using e2 s by (simp add: evolves_def)
qed

theorem precedence_changes_once_witness:
  "linkPrecedence (example_db_merge ! 1) = primary \<and>
   linkPrecedence (requests remdups example_db_merge [(example_request ''a'' ''2'', 9)] ! 1)
     = secondary \<and>
   linkedId (requests remdups example_db_merge [(example_request ''a'' ''2'', 9)] ! 1) \<noteq> None \<and>
   linkPrecedence
     (requests remdups (requests remdups example_db_merge [(example_request ''a'' ''2'', 9)])
        [(example_request ''c'' ''1'', 10)] ! 1) = secondary \<and>
   linkedId (example_db_merge ! 2) \<noteq> None \<and>
   linkedId (requests remdups example_db_merge [(example_request ''a'' ''2'', 9)] ! 2) \<noteq> None"
proof -
  have len: "1 < length example_db_merge" "2 < length example_db_merge"
    by (simp_all add: example_db_merge_def)
  note th = precedence_changes_once
    [of example_db_merge remdups "[(example_request ''a'' ''2'', 9)]"
        "[(example_request ''c'' ''1'', 10)]", THEN conjunct2, THEN spec]
  note th1 = th [of 1, THEN mp, OF len(1)]
  note th2 = th [of 2, THEN mp, OF len(2)]
  have a: "linkPrecedence (example_db_merge ! 1) = primary \<and>
     linkPrecedence (requests remdups example_db_merge [(example_request ''a'' ''2'', 9)] ! 1)
       = secondary \<and>
     linkedId (requests remdups example_db_merge [(example_request ''a'' ''2'', 9)] ! 1) \<noteq> None \<and>
     linkPrecedence
       (requests remdups (requests remdups example_db_merge [(example_request ''a'' ''2'', 9)])
          [(example_request ''c'' ''1'', 10)] ! 1) = secondary"
    by (rule th1 [THEN conjunct2, THEN conjunct2, THEN conjunct2, THEN mp,
          OF example_merge_changed])
  have set: "linkedId (example_db_merge ! 2) \<noteq> None"
    by (simp add: example_db_merge_def example_row_def)
  have b: "linkedId (requests remdups example_db_merge [(example_request ''a'' ''2'', 9)] ! 2)
             \<noteq> None"
    by (rule th2 [THEN conjunct2, THEN conjunct2, THEN conjunct1, THEN mp, OF set])
  from a set b show ?thesis by (intro conjI) (elim conjE, assumption)+
qed

text \<open>
  Claim C9 as stated fails for \<open>linkedId\<close>. In the history below the row with id 3 is
  created as a primary, is demoted under the row 2 by the fourth request, and is pointed to
  the row 1 by the fifth, when the row 2 is absorbed: its \<open>linkedId\<close> changes twice.
\<close>

theorem linkedId_changes_twice:
  "contact_id (requests remdups [] (take 3 example_history) ! 2) = 3 \<and>
   linkedId (requests remdups [] (take 3 example_history) ! 2) = None \<and>
   linkedId (requests remdups [] (take 4 example_history) ! 2) = Some 2 \<and>
   linkedId (requests remdups [] (take 5 example_history) ! 2) = Some 1"
  by code_simp

section \<open>Merging groups\<close>

text \<open>
  Claim C1, as amended. In a table that satisfies the invariants, when the matched rows
  resolve to the primaries \<open>m # others\<close> (two or more groups when \<open>others\<close> is not
  empty), \<open>m\<close> has the smallest \<open>createdAt\<close> of them, stays a primary row of the
  table and is the primary the response names; every row of \<open>others\<close> becomes a
  secondary whose \<open>linkedId\<close> is the id of \<open>m\<close>. This holds whether or not the
  request adds information: the table grows by one row when it does and by none when it
  does not. Which of several primaries with the same smallest \<open>createdAt\<close> survives is
  not said: the sort is by \<open>createdAt\<close> alone.
\<close>

theorem merge_demotes_newer_primaries:
  assumes "store_inv db"
    and "primary_contacts db (unique_matching_contacts db (req_email r) (req_phoneNumber r))
           = m # others"
  shows "(\<forall>p\<in>set others. createdAt m \<le> createdAt p) \<and>
    m \<in> set (fst (identify_contact set_iter db r now)) \<and> linkPrecedence m = primary \<and>
    (\<exists>resp. snd (identify_contact set_iter db r now) = Inr resp \<and>
        primaryContatctId (contact resp) = contact_id m) \<and>
    (\<forall>i<length db. db ! i \<in> set others \<longrightarrow>
        contact_id (fst (identify_contact set_iter db r now) ! i) = contact_id (db ! i) \<and>
        linkPrecedence (fst (identify_contact set_iter db r now) ! i) = secondary \<and>
        linkedId (fst (identify_contact set_iter db r now) ! i) = Some (contact_id m)) \<and>
    length (fst (identify_contact set_iter db r now)) =
      length db +
      (if adds_information db (req_email r) (req_phoneNumber r) m others then 1 else 0)"
proof -
  let ?db' = "fst (identify_contact set_iter db r now)"
  note facts = resolved_facts [OF assms]
  note d = store_inv_distinct [OF assms(1)]
  have osub: "set others \<subseteq> set db" using facts(1) by simp
  have res: "identify_contact set_iter db r now =
           (committed db (req_email r) (req_phoneNumber r) now m others,
            Inr \<lparr>contact = response_data set_iter
                   (committed db (req_email r) (req_phoneNumber r) now m others) m\<rparr>)"
    using identify_resolved [OF assms] .
  have st: "?db' = committed db (req_email r) (req_phoneNumber r) now m others"
    using res by simp
  have a: "\<forall>p\<in>set others. createdAt m \<le> createdAt p"
    using sorted_primary_contacts
      [of db "unique_matching_contacts db (req_email r) (req_phoneNumber r)"]
    unfolding assms(2) by (auto dest: sorted_head_le)
  have b: "m \<in> set ?db'"
    unfolding st by (rule main_in_committed [OF assms(1) facts])
  have c: "linkPrecedence m = primary" using facts(3) by simp
  have e: "\<exists>resp. snd (identify_contact set_iter db r now) = Inr resp \<and>
        primaryContatctId (contact resp) = contact_id m"
    unfolding res by (simp add: response_data_def Let_def)
  have f: "\<forall>i<length db. db ! i \<in> set others \<longrightarrow>
        contact_id (?db' ! i) = contact_id (db ! i) \<and>
        linkPrecedence (?db' ! i) = secondary \<and>
        linkedId (?db' ! i) = Some (contact_id m)"
  proof (intro allI impI)
    fix i assume i: "i < length db" and o: "db ! i \<in> set others"
    have nth: "?db' ! i = row_after db (contact_id m) others now (db ! i)"
      using i by (simp add: st committed_eq nth_append)
    have mem: "db ! i \<in> set db" using i by simp
    show "contact_id (?db' ! i) = contact_id (db ! i) \<and>
        linkPrecedence (?db' ! i) = secondary \<and>
        linkedId (?db' ! i) = Some (contact_id m)"
      unfolding nth using row_after_demoted [OF d osub mem o, of "contact_id m" now] by simp
  qed
  have g: "length ?db' = length db +
      (if adds_information db (req_email r) (req_phoneNumber r) m others then 1 else 0)"
    by (simp add: st committed_eq)
  from a b c e f g show ?thesis by blast
qed

theorem merge_demotes_newer_primaries_witness:
  "store_inv example_db_merge \<and>
   primary_contacts example_db_merge
     (unique_matching_contacts example_db_merge (Some ''a'') (Some ''2'')) =
     [example_row 1 ''a'' ''1'' None primary 1, example_row 2 ''b'' ''2'' None primary 2] \<and>
   \<not> adds_information example_db_merge (Some ''a'') (Some ''2'')
       (example_row 1 ''a'' ''1'' None primary 1) [example_row 2 ''b'' ''2'' None primary 2] \<and>
   linkPrecedence (fst (identify_contact remdups example_db_merge (example_request ''a'' ''2'') 9) ! 1)
     = secondary \<and>
   linkedId (fst (identify_contact remdups example_db_merge (example_request ''a'' ''2'') 9) ! 1)
     = Some 1 \<and>
   length (fst (identify_contact remdups example_db_merge (example_request ''a'' ''2'') 9)) = 3"
proof -
  let ?r = "example_request ''a'' ''2''"
  let ?p1 = "example_row 1 ''a'' ''1'' None primary 1"
  let ?p2 = "example_row 2 ''b'' ''2'' None primary 2"
  let ?db' = "fst (identify_contact remdups example_db_merge ?r 9)"
  have res: "primary_contacts example_db_merge
      (unique_matching_contacts example_db_merge (req_email ?r) (req_phoneNumber ?r)) = ?p1 # [?p2]"
    using example_merge_resolved by (simp add: example_request_def)
  have no: "\<not> adds_information example_db_merge (req_email ?r) (req_phoneNumber ?r) ?p1 [?p2]"
    using example_merge_no_information by (simp add: example_request_def)
  note th = merge_demotes_newer_primaries [OF store_inv_example_db_merge res, of remdups 9]
  have i: "1 < length example_db_merge" and o: "example_db_merge ! 1 \<in> set [?p2]"
    by (simp_all add: example_db_merge_def)
  note rows = th [THEN conjunct2, THEN conjunct2, THEN conjunct2, THEN conjunct2, THEN conjunct1,
      THEN spec, of 1, THEN mp, OF i, THEN mp, OF o]
  have mid: "contact_id ?p1 = 1" by (simp add: example_row_def)
  have a: "linkPrecedence (?db' ! 1) = secondary"
    by (rule rows [THEN conjunct2, THEN conjunct1])
  have b: "linkedId (?db' ! 1) = Some 1"
    using rows [THEN conjunct2, THEN conjunct2] unfolding mid .
  have "length ?db' = length example_db_merge + (if False then 1 else 0)"
    using th [THEN conjunct2, THEN conjunct2, THEN conjunct2, THEN conjunct2, THEN conjunct2] no
    by (simp only: if_False)
  then have c: "length ?db' = 3"
    by (simp add: example_db_merge_def)
  from store_inv_example_db_merge example_merge_resolved example_merge_no_information a b c
  show ?thesis by (intro conjI)
qed

text \<open>
  Claim C1 as stated fails on ties. Two primaries are created within the same second; a
  request with the email of the second and the phone number of the first matches the row 2
  before the row 1, the stable sort keeps that order, and the row 2 survives while the row
  1, with the smaller id, is demoted.
\<close>

theorem tie_keeps_larger_id:
  "requests remdups [] [(example_request ''a'' ''1'', 5), (example_request ''b'' ''2'', 5)]
     = example_db_tie \<and>
   identify_contact remdups example_db_tie (example_request ''b'' ''1'') 6 =
     ([(example_row 1 ''a'' ''1'' (Some 2) secondary 5)\<lparr>updatedAt := 6\<rparr>,
       example_row 2 ''b'' ''2'' None primary 5],
      Inr \<lparr>contact = \<lparr>primaryContatctId = 2, emails = [''b'', ''a''],
            phoneNumbers = [''2'', ''1''], secondaryContactIds = [1]\<rparr>\<rparr>)"
  by code_simp

section \<open>The emails and phone numbers of the response\<close>






end
